theory Spec2Isabelle
  imports Complex_Main "HOL-Library.Word" "HOL-Library.Sublist"
begin

section \<open>JavaScript strings\<close>

text \<open>
  A JavaScript string is a sequence of 16-bit code units, and every string operation the
  component uses (\<^verbatim>\<open>trim\<close>, \<^verbatim>\<open>startsWith\<close>, \<^verbatim>\<open>replace\<close> with a regular expression that
  has no \<^verbatim>\<open>u\<close> flag) works on code units.  \<open>js\<close> writes an ASCII literal.
\<close>

type_synonym cu = "16 word"
type_synonym jsstring = "cu list"

definition js :: "string \<Rightarrow> jsstring" where
  "js s = map of_char s"

text \<open>
  \<^verbatim>\<open>String.prototype.trim\<close> removes WhiteSpace and LineTerminator code points from both
  ends; the regular expression class \<^verbatim>\<open>\s\<close> matches the same set: TAB, LF, VT, FF, CR,
  SPACE, U+00A0, U+1680, U+2000 to U+200A, U+2028, U+2029, U+202F, U+205F, U+3000, U+FEFF.
\<close>

definition is_ws :: "cu \<Rightarrow> bool" where
  "is_ws c \<longleftrightarrow>
     c = 0x09 \<or> c = 0x0A \<or> c = 0x0B \<or> c = 0x0C \<or> c = 0x0D \<or> c = 0x20 \<or> c = 0xA0 \<or>
     c = 0x1680 \<or> (0x2000 \<le> c \<and> c \<le> 0x200A) \<or> c = 0x2028 \<or> c = 0x2029 \<or>
     c = 0x202F \<or> c = 0x205F \<or> c = 0x3000 \<or> c = 0xFEFF"

definition trimStart :: "jsstring \<Rightarrow> jsstring" where
  "trimStart s = dropWhile is_ws s"

definition trimEnd :: "jsstring \<Rightarrow> jsstring" where
  "trimEnd s = rev (dropWhile is_ws (rev s))"

definition trim :: "jsstring \<Rightarrow> jsstring" where
  "trim s = trimEnd (trimStart s)"

definition startsWith :: "jsstring \<Rightarrow> jsstring \<Rightarrow> bool" where
  "startsWith s p = prefix p s"

section \<open>The sanitizer of \<^verbatim>\<open>handleGenerate\<close>\<close>

definition nl :: cu where
  "nl = 0x0A"

definition tick :: cu where
  "tick = 0x60"

definition header :: jsstring where
  "header = js ''flowchart TD''"

definition header_nl :: jsstring where
  "header_nl = header @ [nl]"

definition fence :: jsstring where
  "fence = [tick, tick, tick]"

definition fence_mermaid :: jsstring where
  "fence_mermaid = fence @ js ''mermaid''"

text \<open>
  \<^verbatim>\<open>.replace(/```mermaid\n?/g, '')\<close>: scanning from the left, every match of the fence
  tagged \<^verbatim>\<open>mermaid\<close>, together with one line feed when one follows, is dropped, and the
  scan goes on behind the match.
\<close>

function strip_fence_mermaid :: "jsstring \<Rightarrow> jsstring" where
  "strip_fence_mermaid [] = []"
| "strip_fence_mermaid (c # cs) =
     (if prefix fence_mermaid (c # cs)
      then (case drop (length fence_mermaid) (c # cs) of
              [] \<Rightarrow> []
            | d # ds \<Rightarrow> if d = nl then strip_fence_mermaid ds
                        else strip_fence_mermaid (d # ds))
      else c # strip_fence_mermaid cs)"
  by pat_completeness auto
termination
proof (relation "measure length")
  show "wf (measure length)" by simp
next
  fix c :: cu and cs x21 x22
  assume "drop (length fence_mermaid) (c # cs) = x21 # x22"
  then have "length (x21 # x22) \<le> length (c # cs)"
    by (metis length_drop diff_le_self)
  then show "(x22, c # cs) \<in> measure length" by simp
next
  fix c :: cu and cs x21 x22
  assume "prefix fence_mermaid (c # cs)"
    and d: "drop (length fence_mermaid) (c # cs) = x21 # x22"
  have "length (x21 # x22) = length (c # cs) - length fence_mermaid"
    by (simp add: d [symmetric])
  then show "(x21 # x22, c # cs) \<in> measure length"
    by (simp add: fence_mermaid_def fence_def js_def)
next
  fix c :: cu and cs
  show "(cs, c # cs) \<in> measure length" by simp
qed

text \<open>\<^verbatim>\<open>.replace(/```/g, '')\<close>: every match of three backticks, left to right.\<close>

fun strip_fence :: "jsstring \<Rightarrow> jsstring" where
  "strip_fence (a # b # c # cs) =
     (if a = tick \<and> b = tick \<and> c = tick then strip_fence cs
      else a # strip_fence (b # c # cs))"
| "strip_fence cs = cs"

text \<open>
  \<^verbatim>\<open>.replace(/^graph /i, 'flowchart ')\<close>.  Without the \<^verbatim>\<open>u\<close> flag, ignore-case matching
  compares the upper-case forms of single code units and never maps a code unit of 128 or
  more to one below 128; against the ASCII pattern \<^verbatim>\<open>graph \<close> a code unit therefore
  matches exactly when its ASCII upper-case form is that of the pattern's code unit.
\<close>

definition ascii_upper :: "cu \<Rightarrow> cu" where
  "ascii_upper c = (if 0x61 \<le> c \<and> c \<le> 0x7A then c - 0x20 else c)"

definition normalize_graph :: "jsstring \<Rightarrow> jsstring" where
  "normalize_graph s =
     (if length (js ''graph '') \<le> length s \<and>
         map ascii_upper (take (length (js ''graph '')) s) = map ascii_upper (js ''graph '')
      then js ''flowchart '' @ drop (length (js ''graph '')) s
      else s)"

text \<open>\<^verbatim>\<open>code.replace(/^flowchart TD\s*/, '')\<close>: the header and all white space behind it.\<close>

definition strip_header :: "jsstring \<Rightarrow> jsstring" where
  "strip_header s =
     (if prefix header s then dropWhile is_ws (drop (length header) s) else s)"

text \<open>The \<^verbatim>\<open>if (!code.startsWith('flowchart TD\n'))\<close> block.\<close>

definition ensure_header :: "jsstring \<Rightarrow> jsstring" where
  "ensure_header s =
     (if \<not> startsWith s header_nl then header_nl @ strip_header s else s)"

text \<open>
  \<^verbatim>\<open>code.replace(/^(flowchart TD)([^\n])/, '$1\n$2')\<close>: a line feed goes between the header
  and a code unit other than the line feed that directly follows it.
\<close>

definition guard_newline :: "jsstring \<Rightarrow> jsstring" where
  "guard_newline s =
     (if prefix header s
      then (case drop (length header) s of
              [] \<Rightarrow> s
            | d # ds \<Rightarrow> if d \<noteq> nl then header @ nl # d # ds else s)
      else s)"

text \<open>
  The clean-up of the completion text in \<^verbatim>\<open>handleGenerate\<close>, from
  \<^verbatim>\<open>data.choices[0].message.content.trim()\<close> to the last \<^verbatim>\<open>replace\<close>.
\<close>

definition clean :: "jsstring \<Rightarrow> jsstring" where
  "clean content = trim (normalize_graph (strip_fence (strip_fence_mermaid (trim content))))"

definition sanitize :: "jsstring \<Rightarrow> jsstring" where
  "sanitize content = guard_newline (ensure_header (clean content))"

section \<open>The component state\<close>

datatype role = System | User | Assistant

record message =
  role :: role
  content :: jsstring

text \<open>
  The \<^verbatim>\<open>useState\<close> cells of \<^verbatim>\<open>FlowchartApp\<close>.  \<open>pending\<close> is not a cell: it stands
  for the call of \<^verbatim>\<open>handleGenerate\<close> that is suspended at \<^verbatim>\<open>await fetch\<close>, and holds the
  \<^verbatim>\<open>updatedMessages\<close> that call has built, which is the \<^verbatim>\<open>messages\<close> field of the
  request body it has sent.
\<close>

record state =
  prompt :: jsstring
  mermaidCode :: jsstring
  loading :: bool
  error :: "jsstring option"
  scale :: real
  messages :: "message list"
  pending :: "message list option"

definition system_message :: message where
  "system_message = \<lparr>role = System, content =
     js ''You are a Mermaid.js flowchart generator. Generate only valid Mermaid.js flowchart code. Always start with 'flowchart TD'. Use proper syntax: nodes with square brackets [Node text], arrows with -->, and no extra text or formatting. If this is a follow-up request, modify the existing flowchart based on the user's request. Example format:''
     @ [nl] @ js ''flowchart TD'' @ [nl] @ js ''A[Start] --> B[Process]'' @ [nl]
     @ js ''B --> C[End]''\<rparr>"

definition initial :: state where
  "initial = \<lparr>prompt = [], mermaidCode = [], loading = False, error = None, scale = 1,
     messages = [system_message], pending = None\<rparr>"

subsection \<open>\<^verbatim>\<open>handleGenerate\<close>\<close>

text \<open>
  The message pushed when \<^verbatim>\<open>mermaidCode\<close> is truthy, that is, not the empty string.
\<close>

definition current_code_message :: "jsstring \<Rightarrow> message" where
  "current_code_message code = \<lparr>role = Assistant, content =
     js ''Current flowchart code:'' @ [nl] @ code @ [nl]
     @ js ''Please modify this based on the user's request.''\<rparr>"

definition updatedMessages :: "state \<Rightarrow> message list" where
  "updatedMessages st =
     (let updated = messages st @ [\<lparr>role = User, content = prompt st\<rparr>]
      in if mermaidCode st \<noteq> [] then updated @ [current_code_message (mermaidCode st)]
         else updated)"

text \<open>
  What the awaited part of \<^verbatim>\<open>handleGenerate\<close> can do.  \<^verbatim>\<open>fetch\<close> rejects (a transport
  failure), or it resolves with a response that is not \<^verbatim>\<open>ok\<close> and has a status text, or
  with one that is \<^verbatim>\<open>ok\<close>; then reading the body throws (\<^verbatim>\<open>response.json()\<close>, or
  \<^verbatim>\<open>data.choices[0].message.content.trim()\<close> on a body of another shape), or it gives the
  completion text.  A thrown value is an \<^verbatim>\<open>Error\<close> with its message, or something else.
\<close>

datatype thrown = Error_object jsstring | Other_value

datatype outcome =
    Rejected thrown
  | Not_ok jsstring
  | Body_throws thrown
  | Completed jsstring

text \<open>\<^verbatim>\<open>err instanceof Error ? err.message : "Unknown error"\<close>\<close>

fun thrown_text :: "thrown \<Rightarrow> jsstring" where
  "thrown_text (Error_object m) = m"
| "thrown_text Other_value = js ''Unknown error''"

text \<open>The text the \<^verbatim>\<open>catch\<close> block stores; a completed call throws nothing.\<close>

fun error_text :: "outcome \<Rightarrow> jsstring option" where
  "error_text (Rejected t) = Some (thrown_text t)"
| "error_text (Not_ok statusText) = Some (js ''API error: '' @ statusText)"
| "error_text (Body_throws t) = Some (thrown_text t)"
| "error_text (Completed c) = None"

text \<open>
  \<^verbatim>\<open>handleGenerate\<close> up to \<^verbatim>\<open>await fetch\<close>: the guard on the prompt, the two setters, and
  the request with \<^verbatim>\<open>updatedMessages\<close>.
\<close>

definition handleGenerate :: "state \<Rightarrow> state" where
  "handleGenerate st =
     (if trim (prompt st) = [] then st
      else st\<lparr>loading := True, error := None, pending := Some (updatedMessages st)\<rparr>)"

text \<open>
  \<^verbatim>\<open>handleGenerate\<close> from the point where the awaited call settles: the \<^verbatim>\<open>try\<close> body on a
  completion, the \<^verbatim>\<open>catch\<close> block otherwise, and \<^verbatim>\<open>finally\<close>.
\<close>

definition settle :: "outcome \<Rightarrow> state \<Rightarrow> state" where
  "settle oc st =
     (case pending st of
        None \<Rightarrow> st
      | Some updated \<Rightarrow>
          (case oc of
             Completed text \<Rightarrow>
               (let code = sanitize text
                in st\<lparr>messages := updated @ [\<lparr>role = Assistant, content = code\<rparr>],
                      mermaidCode := code, prompt := [], loading := False, pending := None\<rparr>)
           | _ \<Rightarrow> st\<lparr>error := error_text oc, loading := False, pending := None\<rparr>))"

text \<open>
  The button: \<^verbatim>\<open>disabled={loading || !prompt.trim()}\<close> with \<^verbatim>\<open>onClick={handleGenerate}\<close>.
  A disabled button delivers no click.
\<close>

definition disabled :: "state \<Rightarrow> bool" where
  "disabled st \<longleftrightarrow> loading st \<or> trim (prompt st) = []"

definition click :: "state \<Rightarrow> state" where
  "click st = (if disabled st then st else handleGenerate st)"

subsection \<open>\<^verbatim>\<open>handleZoom\<close>\<close>

text \<open>
  The scale is an IEEE double.  The double of the literal \<^verbatim>\<open>0.1\<close> is \<open>d01\<close>, a little above
  one tenth; \<^verbatim>\<open>2\<close> and \<^verbatim>\<open>1\<close> are exact.  The sum \<^verbatim>\<open>prevScale + delta\<close> is rounded, and the
  rounding is a parameter \<open>fl\<close> of the model: nothing is assumed of it.  \<^verbatim>\<open>Math.max\<close> and
  \<^verbatim>\<open>Math.min\<close> of finite doubles are exact.
\<close>

definition d01 :: real where
  "d01 = 3602879701896397 / 36028797018963968"

definition handleZoom :: "(real \<Rightarrow> real) \<Rightarrow> real \<Rightarrow> state \<Rightarrow> state" where
  "handleZoom fl delta st = st\<lparr>scale := max d01 (min 2 (fl (scale st + delta)))\<rparr>"

subsection \<open>Events\<close>

text \<open>
  Everything that changes the state: typing into the text area, a click on the button,
  the awaited call settling, the two zoom buttons (\<^verbatim>\<open>handleZoom(0.1)\<close> and
  \<^verbatim>\<open>handleZoom(-0.1)\<close>), and the rendering effect catching an error of \<^verbatim>\<open>mermaid.run\<close>.
\<close>

datatype event =
    Type_prompt jsstring
  | Click
  | Settle outcome
  | Zoom_in
  | Zoom_out
  | Render_fails

fun step :: "(real \<Rightarrow> real) \<Rightarrow> state \<Rightarrow> event \<Rightarrow> state" where
  "step fl st (Type_prompt text) = st\<lparr>prompt := text\<rparr>"
| "step fl st Click = click st"
| "step fl st (Settle oc) = settle oc st"
| "step fl st Zoom_in = handleZoom fl d01 st"
| "step fl st Zoom_out = handleZoom fl (- d01) st"
| "step fl st Render_fails =
     st\<lparr>error := Some (js ''Failed to render diagram. Please check the syntax.'')\<rparr>"

definition run :: "(real \<Rightarrow> real) \<Rightarrow> event list \<Rightarrow> state" where
  "run fl evs = foldl (step fl) initial evs"

subsection \<open>Auxiliary predicates\<close>

text \<open>The outcomes that end in the \<^verbatim>\<open>catch\<close> block: every one but a completion.\<close>

fun throws :: "outcome \<Rightarrow> bool" where
  "throws (Completed c) = False"
| "throws oc = True"

text \<open>
  While a call is suspended the button stays disabled, and the \<^verbatim>\<open>updatedMessages\<close> it
  holds extend the stored messages.
\<close>

definition pending_ok :: "state \<Rightarrow> bool" where
  "pending_ok st \<longleftrightarrow>
     (case pending st of None \<Rightarrow> True | Some updated \<Rightarrow> loading st \<and> prefix (messages st) updated)"

section \<open>Facts about the sanitizer\<close>

lemma header_unfold: "header = [102, 108, 111, 119, 99, 104, 97, 114, 116, 32, 84, 68]"
  by (simp add: header_def js_def)

lemma length_header: "length header = 12"
  by (simp add: header_unfold)

lemma header_nl_unfold: "header_nl = [102, 108, 111, 119, 99, 104, 97, 114, 116, 32, 84, 68, 10]"
  by (simp add: header_nl_def header_unfold nl_def)

lemma tick_notin_header_nl: "tick \<notin> set header_nl"
  by (simp add: header_nl_def header_unfold nl_def tick_def)

lemma guard_newline_id: "prefix header_nl t \<Longrightarrow> guard_newline t = t"
  by (auto simp: guard_newline_def header_nl_def prefix_def)

lemma prefix_header_nl_ensure: "prefix header_nl (ensure_header t)"
  by (simp add: ensure_header_def startsWith_def)

lemma sanitize_eq_ensure: "sanitize c = ensure_header (clean c)"
  by (simp add: sanitize_def guard_newline_id prefix_header_nl_ensure)

lemma strip_header_after:
  "strip_header (header @ r) = dropWhile is_ws r"
  by (simp add: strip_header_def)

lemma strip_fence_keep: "c \<noteq> tick \<Longrightarrow> strip_fence (c # r) = c # strip_fence r"
  by (cases r rule: strip_fence.cases) auto

lemma strip_fence_two: 
  assumes "prefix [tick, tick] (strip_fence (b # c # cs))" shows "b = tick \<and> c = tick"
proof (rule ccontr)
  assume n: "\<not> (b = tick \<and> c = tick)"
  show False
  proof (cases "b = tick")
    case False
    with assms show False by (simp add: strip_fence_keep)
  next
    case True
    with n have c: "c \<noteq> tick" by simp
    show False
    proof (cases cs)
      case Nil
      with assms c show False by simp
    next
      case (Cons d ds)
      with assms c show False by (simp add: strip_fence_keep)
    qed
  qed
qed

lemma strip_fence_no_prefix: "\<not> prefix fence (strip_fence s)"
proof (induction s rule: strip_fence.induct)
  case (1 a b c cs)
  show ?case
  proof (cases "a = tick \<and> b = tick \<and> c = tick")
    case True
    with 1 show ?thesis by simp
  next
    case False
    then have eq: "strip_fence (a # b # c # cs) = a # strip_fence (b # c # cs)" by auto
    show ?thesis
    proof
      assume "prefix fence (strip_fence (a # b # c # cs))"
      then have "a = tick" and "prefix [tick, tick] (strip_fence (b # c # cs))"
        unfolding eq by (simp_all add: fence_def)
      with strip_fence_two False show False by blast
    qed
  qed
qed (simp_all add: fence_def)

lemma strip_fence_no_fence: "\<not> sublist fence (strip_fence s)"
proof (induction s rule: strip_fence.induct)
  case (1 a b c cs)
  show ?case
  proof (cases "a = tick \<and> b = tick \<and> c = tick")
    case True
    with 1 show ?thesis by simp
  next
    case False
    then have eq: "strip_fence (a # b # c # cs) = a # strip_fence (b # c # cs)" by auto
    from False 1 have "\<not> sublist fence (strip_fence (b # c # cs))" by blast
    moreover have "\<not> prefix fence (a # strip_fence (b # c # cs))"
      using strip_fence_no_prefix [of "a # b # c # cs"] unfolding eq .
    ultimately show ?thesis
      unfolding eq by (simp add: sublist_Cons_right)
  qed
qed (simp_all add: fence_def sublist_Cons_right)

lemma sublist_trans: "sublist xs ys \<Longrightarrow> sublist ys zs \<Longrightarrow> sublist xs zs"
  by (rule sublist_order.order_trans)

lemma no_tick_append:
  "tick \<notin> set a \<Longrightarrow> sublist fence (a @ b) \<Longrightarrow> sublist fence b"
proof (induction a)
  case Nil
  then show ?case by simp
next
  case (Cons x a)
  from Cons.prems(1) have "\<not> prefix fence (x # a @ b)"
    by (simp add: fence_def)
  with Cons.prems(2) have "sublist fence (a @ b)"
    by (simp add: sublist_Cons_right)
  with Cons show ?case by simp
qed

lemma sublist_trim: "sublist (trim s) s"
proof -
  have "prefix (trimEnd t) t" for t
    unfolding trimEnd_def
    by (metis suffix_dropWhile suffix_to_prefix rev_rev_ident)
  then have "sublist (trim s) (trimStart s)" by (simp add: trim_def)
  moreover have "sublist (trimStart s) s" by (simp add: trimStart_def)
  ultimately show ?thesis by (rule sublist_trans)
qed

lemma no_fence_normalize_graph:
  assumes "\<not> sublist fence s" shows "\<not> sublist fence (normalize_graph s)"
proof
  assume a: "sublist fence (normalize_graph s)"
  have t: "tick \<notin> set (js ''flowchart '')" by (simp add: js_def tick_def)
  show False
  proof (cases "normalize_graph s = s")
    case True
    with a assms show False by simp
  next
    case False
    then have "normalize_graph s = js ''flowchart '' @ drop (length (js ''graph '')) s"
      unfolding normalize_graph_def by presburger
    with a have "sublist fence (drop (length (js ''graph '')) s)"
      using no_tick_append [OF t] by simp
    then have "sublist fence s"
      using sublist_drop sublist_trans by blast
    with assms show False by simp
  qed
qed

lemma no_fence_clean: "\<not> sublist fence (clean c)"
  unfolding clean_def
  using sublist_trans [OF _ sublist_trim] no_fence_normalize_graph strip_fence_no_fence by blast

lemma sublist_strip_header: "sublist (strip_header s) s"
  unfolding strip_header_def
  using sublist_trans [OF sublist_dropWhile sublist_drop] by auto

lemma no_fence_ensure_header:
  assumes "\<not> sublist fence s" shows "\<not> sublist fence (ensure_header s)"
proof (cases "startsWith s header_nl")
  case True
  with assms show ?thesis by (simp add: ensure_header_def)
next
  case False
  have "\<not> sublist fence (strip_header s)"
    using assms sublist_trans [OF _ sublist_strip_header] by blast
  then have "\<not> sublist fence (header_nl @ strip_header s)"
    using no_tick_append [OF tick_notin_header_nl] by blast
  with False show ?thesis by (simp add: ensure_header_def)
qed

lemma no_fence_sanitize: "\<not> sublist fence (sanitize c)"
  by (simp add: sanitize_eq_ensure no_fence_ensure_header no_fence_clean)

lemma trim_Nil: "trim [] = []"
  by (simp add: trim_def trimStart_def trimEnd_def)

lemma trim_all_ws:
  assumes "\<forall>c\<in>set s. is_ws c" shows "trim s = []"
proof -
  from assms have "trimStart s = []" by (simp add: trimStart_def)
  then show ?thesis by (simp add: trim_def trimEnd_def)
qed

lemma clean_Nil:
  assumes "trim s = []" shows "clean s = []"
proof -
  have "normalize_graph [] = []" by (simp add: normalize_graph_def js_def)
  with assms show ?thesis by (simp add: clean_def trim_Nil)
qed

lemma ensure_header_Nil: "ensure_header [] = header_nl"
  by (simp add: ensure_header_def startsWith_def header_nl_def strip_header_def header_unfold)

lemma trimEnd_last: "trimEnd s \<noteq> [] \<Longrightarrow> \<not> is_ws (last (trimEnd s))"
  unfolding trimEnd_def using hd_dropWhile [of is_ws "rev s"] by (simp add: last_rev)

lemma trim_last: "trim s \<noteq> [] \<Longrightarrow> \<not> is_ws (last (trim s))"
  unfolding trim_def by (rule trimEnd_last)

lemma trim_id:
  assumes "s \<noteq> []" "\<not> is_ws (hd s)" "\<not> is_ws (last s)" shows "trim s = s"
proof -
  have "trimStart s = s"
    using assms by (simp add: trimStart_def dropWhile_eq_self_iff)
  moreover have "dropWhile is_ws (rev s) = rev s"
    using assms by (simp add: dropWhile_eq_self_iff hd_rev)
  ultimately show ?thesis by (simp add: trim_def trimEnd_def)
qed

lemma strip_fence_mermaid_id: "\<not> sublist fence s \<Longrightarrow> strip_fence_mermaid s = s"
proof (induction s)
  case Nil
  show ?case by simp
next
  case (Cons c cs)
  have "prefix fence fence_mermaid" by (simp add: fence_mermaid_def)
  with Cons.prems have "\<not> prefix fence_mermaid (c # cs)"
    by (meson prefix_order.order_trans prefix_imp_sublist)
  moreover from Cons.prems have "\<not> sublist fence cs"
    by (simp add: sublist_Cons_right)
  ultimately show ?case using Cons.IH by simp
qed

lemma strip_fence_id: "\<not> sublist fence s \<Longrightarrow> strip_fence s = s"
proof (induction s rule: strip_fence.induct)
  case (1 a b c cs)
  from "1.prems" have np: "\<not> prefix fence (a # b # c # cs)" and ns: "\<not> sublist fence (b # c # cs)"
    by (simp_all add: sublist_Cons_right)
  from np have n: "\<not> (a = tick \<and> b = tick \<and> c = tick)" by (auto simp: fence_def)
  with 1(2) ns have "strip_fence (b # c # cs) = b # c # cs" by blast
  with n show ?case by auto
qed simp_all










lemma normalize_graph_header: "prefix header s \<Longrightarrow> normalize_graph s = s"
  by (auto simp: normalize_graph_def prefix_def header_unfold js_def ascii_upper_def)

lemma sanitize_fixpoint:
  assumes p: "prefix header_nl t" and f: "\<not> sublist fence t" and l: "\<not> is_ws (last t)"
  shows "sanitize t = t"
proof -
  from p obtain r where t: "t = header_nl @ r" by (auto simp: prefix_def)
  then have ne: "t \<noteq> []" and hd: "\<not> is_ws (hd t)"
    by (simp_all add: header_nl_unfold is_ws_def)
  from ne hd l have tr: "trim t = t" by (rule trim_id)
  have ph: "prefix header t" using t by (simp add: header_nl_def)
  have "clean t = t"
    unfolding clean_def
    by (simp add: tr strip_fence_mermaid_id [OF f] strip_fence_id [OF f] normalize_graph_header [OF ph])
  then show ?thesis
    using p by (simp add: sanitize_eq_ensure ensure_header_def startsWith_def)
qed

lemma sanitize_header_nl: "sanitize header_nl = header_nl"
  by code_simp

lemma last_strip_header: "strip_header s \<noteq> [] \<Longrightarrow> last (strip_header s) = last s"
proof -
  assume a: "strip_header s \<noteq> []"
  have "suffix (strip_header s) s"
    unfolding strip_header_def
    using suffix_order.order_trans [OF suffix_dropWhile suffix_drop] by auto
  then obtain p where "s = p @ strip_header s" by (auto simp: suffix_def)
  then show ?thesis using a by (metis last_appendR)
qed

lemma clean_last: "clean c \<noteq> [] \<Longrightarrow> \<not> is_ws (last (clean c))"
  unfolding clean_def by (rule trim_last)

lemma sanitize_cases:
  "sanitize c = header_nl \<or> \<not> is_ws (last (sanitize c))"
proof (cases "startsWith (clean c) header_nl")
  case True
  then have "clean c \<noteq> []" by (auto simp: startsWith_def header_nl_unfold)
  with True clean_last show ?thesis by (simp add: sanitize_eq_ensure ensure_header_def)
next
  case False
  then have eq: "sanitize c = header_nl @ strip_header (clean c)"
    by (simp add: sanitize_eq_ensure ensure_header_def)
  show ?thesis
  proof (cases "strip_header (clean c) = []")
    case True
    with eq show ?thesis by simp
  next
    case ne: False
    then have "clean c \<noteq> []" by (auto simp: strip_header_def)
    then have "\<not> is_ws (last (clean c))" by (rule clean_last)
    with ne show ?thesis by (simp add: eq last_strip_header)
  qed
qed

lemma sanitize_idem: "sanitize (sanitize c) = sanitize c"
proof (cases "sanitize c = header_nl")
  case True
  then show ?thesis by (simp add: sanitize_header_nl)
next
  case False
  with sanitize_cases have "\<not> is_ws (last (sanitize c))" by blast
  moreover have "prefix header_nl (sanitize c)"
    by (simp add: sanitize_eq_ensure prefix_header_nl_ensure)
  ultimately show ?thesis
    using no_fence_sanitize by (simp add: sanitize_fixpoint)
qed

lemma sanitize_Nil: "sanitize [] = header_nl"
  by code_simp

lemma trim_a: "trim (js ''a'') = js ''a''"
  by code_simp

lemma trim_b: "trim (js ''b'') = js ''b''"
  by code_simp

section \<open>Facts about the component\<close>

lemma throws_error_text: "throws oc \<Longrightarrow> error_text oc \<noteq> None"
  by (cases oc) simp_all

lemma messages_handleGenerate: "messages (handleGenerate st) = messages st"
  by (simp add: handleGenerate_def)

lemma mermaidCode_handleGenerate: "mermaidCode (handleGenerate st) = mermaidCode st"
  by (simp add: handleGenerate_def)

lemma messages_click: "messages (click st) = messages st"
  by (simp add: click_def messages_handleGenerate)

lemma mermaidCode_click: "mermaidCode (click st) = mermaidCode st"
  by (simp add: click_def mermaidCode_handleGenerate)

lemma click_enabled:
  "\<not> disabled st \<Longrightarrow>
     click st = st\<lparr>loading := True, error := None, pending := Some (updatedMessages st)\<rparr>"
  by (simp add: click_def disabled_def handleGenerate_def)

lemma click_disabled: "disabled st \<Longrightarrow> click st = st"
  by (simp add: click_def)

lemma blank_disabled: "\<forall>c\<in>set (prompt st). is_ws c \<Longrightarrow> trim (prompt st) = []"
  by (rule trim_all_ws)

lemma prefix_updatedMessages: "prefix (messages st) (updatedMessages st)"
  by (simp add: updatedMessages_def Let_def)

lemma settle_failure:
  assumes "pending st = Some updated" and "error_text oc \<noteq> None"
  shows "settle oc st = st\<lparr>error := error_text oc, loading := False, pending := None\<rparr>"
  using assms by (cases oc) (simp_all add: settle_def)

lemma settle_completed:
  assumes "pending st = Some updated"
  shows "settle (Completed text) st =
    st\<lparr>messages := updated @ [\<lparr>role = Assistant, content = sanitize text\<rparr>],
       mermaidCode := sanitize text, prompt := [], loading := False, pending := None\<rparr>"
  using assms by (simp add: settle_def Let_def)

lemma messages_cycle_completed:
  assumes "\<not> disabled st"
  shows "messages (settle (Completed c) (click st)) =
           updatedMessages st @ [\<lparr>role = Assistant, content = sanitize c\<rparr>]"
  using assms by (simp add: click_enabled settle_completed)

lemma cycle_failed:
  assumes "\<not> disabled st" and "throws oc"
  shows "settle oc (click st) = st\<lparr>loading := False, error := error_text oc, pending := None\<rparr>"
  using assms by (simp add: click_enabled settle_failure throws_error_text)

lemma users_updatedMessages:
  "length (filter (\<lambda>m. role m = User) (updatedMessages st)) =
     length (filter (\<lambda>m. role m = User) (messages st)) + 1"
  by (simp add: updatedMessages_def Let_def current_code_message_def)

lemma pending_ok_initial: "pending_ok initial"
  by (simp add: pending_ok_def initial_def)

lemma pending_ok_settle: "pending_ok (settle oc st)"
  by (cases "pending st"; cases oc) (simp_all add: pending_ok_def settle_def Let_def)

lemma pending_ok_click: "pending_ok st \<Longrightarrow> pending_ok (click st)"
proof (cases "disabled st")
  case True
  then show "pending_ok st \<Longrightarrow> ?thesis" by (simp add: click_def)
next
  case False
  then show ?thesis
    by (simp add: click_enabled pending_ok_def prefix_updatedMessages split: option.splits)
qed

lemma pending_ok_step: "pending_ok st \<Longrightarrow> pending_ok (step fl st ev)"
proof (cases ev)
  case Click
  then show "pending_ok st \<Longrightarrow> ?thesis" by (simp add: pending_ok_click)
next
  case (Settle oc)
  then show ?thesis by (simp add: pending_ok_settle)
qed (simp_all add: pending_ok_def handleZoom_def split: option.splits)

lemma run_snoc: "run fl (evs @ [ev]) = step fl (run fl evs) ev"
  by (simp add: run_def)

lemma run_Nil: "run fl [] = initial"
  by (simp add: run_def)

lemma run_then_cycle: "run fl (evs @ [Click, Settle oc]) = settle oc (click (run fl evs))"
  by (simp add: run_def)

lemma pending_ok_run: "pending_ok (run fl evs)"
  by (induction evs rule: rev_induct) (simp_all add: run_Nil pending_ok_initial run_snoc pending_ok_step)

lemma prefix_settle:
  assumes "pending_ok st" shows "prefix (messages st) (messages (settle oc st))"
proof (cases "pending st")
  case None
  then show ?thesis by (simp add: settle_def)
next
  case pend: (Some updated)
  with assms have p: "prefix (messages st) updated" by (simp add: pending_ok_def)
  show ?thesis
  proof (cases "error_text oc")
    case None
    then obtain c where "oc = Completed c" by (cases oc) simp_all
    with pend p show ?thesis by (simp add: settle_completed)
  next
    case (Some e)
    with pend show ?thesis by (simp add: settle_failure)
  qed
qed

lemma prefix_step:
  "pending_ok st \<Longrightarrow> prefix (messages st) (messages (step fl st ev))"
  by (cases ev) (simp_all add: prefix_settle messages_click handleZoom_def)

lemma prefix_run_append: "prefix (messages (run fl evs)) (messages (run fl (evs @ rest)))"
proof (induction rest rule: rev_induct)
  case Nil
  show ?case by simp
next
  case (snoc ev rest)
  have "prefix (messages (run fl (evs @ rest))) (messages (step fl (run fl (evs @ rest)) ev))"
    using pending_ok_run by (rule prefix_step)
  then have "prefix (messages (run fl (evs @ rest))) (messages (run fl (evs @ rest @ [ev])))"
    by (simp add: run_snoc [symmetric])
  with snoc show ?case by (rule prefix_order.order_trans)
qed

lemma system_first_run: "prefix [system_message] (messages (run fl evs))"
proof (induction evs rule: rev_induct)
  case Nil
  show ?case by (simp add: run_Nil initial_def)
next
  case (snoc ev evs)
  have "prefix (messages (run fl evs)) (messages (run fl (evs @ [ev])))"
    unfolding run_snoc using pending_ok_run by (rule prefix_step)
  with snoc show ?case by (rule prefix_order.order_trans)
qed

lemma scale_step: "d01 \<le> scale st \<and> scale st \<le> 2 \<Longrightarrow> d01 \<le> scale (step fl st ev) \<and> scale (step fl st ev) \<le> 2"
proof (cases ev)
  case Click
  then show "d01 \<le> scale st \<and> scale st \<le> 2 \<Longrightarrow> ?thesis" by (simp add: click_def handleGenerate_def)
next
  case (Settle oc)
  then show "d01 \<le> scale st \<and> scale st \<le> 2 \<Longrightarrow> ?thesis"
    by (cases "pending st"; cases oc) (simp_all add: settle_def Let_def)
next
  case Zoom_in
  have "d01 \<le> 2" by (simp add: d01_def)
  with Zoom_in show ?thesis by (simp add: handleZoom_def)
next
  case Zoom_out
  have "d01 \<le> 2" by (simp add: d01_def)
  with Zoom_out show ?thesis by (simp add: handleZoom_def)
qed simp_all

lemma scale_run: "d01 \<le> scale (run fl evs) \<and> scale (run fl evs) \<le> 2"
proof (induction evs rule: rev_induct)
  case Nil
  show ?case by (simp add: run_Nil initial_def d01_def)
next
  case (snoc ev evs)
  then show ?case unfolding run_snoc by (rule scale_step)
qed

lemma d01_lower: "1 / 10 \<le> d01"
  by (simp add: d01_def)

lemma js_nonempty: "js ''a'' \<noteq> []" "js ''b'' \<noteq> []" "header_nl \<noteq> []"
  by (simp_all add: js_def header_nl_def)

lemma run_typed: "run fl [Type_prompt (js ''a'')] = initial\<lparr>prompt := js ''a''\<rparr>"
  by (simp add: run_def)

lemma run_first_cycle:
  "run fl [Type_prompt (js ''a''), Click, Settle (Completed []), Type_prompt (js ''b'')] =
     \<lparr>prompt = js ''b'', mermaidCode = header_nl, loading = False, error = None, scale = 1,
      messages = [system_message, \<lparr>role = User, content = js ''a''\<rparr>,
                  \<lparr>role = Assistant, content = header_nl\<rparr>],
      pending = None\<rparr>"
  by (simp add: run_def initial_def click_def disabled_def handleGenerate_def settle_def
      updatedMessages_def trim_a js_nonempty sanitize_Nil)

lemma enabled_typed: "\<not> disabled (run fl [Type_prompt (js ''a'')])"
  by (simp add: run_typed initial_def disabled_def trim_a js_nonempty)

lemma enabled_first_cycle:
  "\<not> disabled (run fl [Type_prompt (js ''a''), Click, Settle (Completed []), Type_prompt (js ''b'')])"
  by (simp add: run_first_cycle disabled_def trim_b js_nonempty)

section \<open>The claims\<close>

subsection \<open>The sanitizer\<close>

text \<open>
  Claim C1.  For every completion text the sanitized code starts with the header line
  \<^verbatim>\<open>flowchart TD\<close> and a line feed.  Text that the clean-up leaves with that line in front is
  kept as it is; otherwise a header in front of it is stripped, with the white space behind it,
  and the header line is put in front.  In particular, where a code unit other than the line
  feed directly follows the header, the output has the line feed between the two; and text
  that does not begin with the header gets the header line in front and is otherwise kept.
\<close>

theorem output_starts_with_header:
  "startsWith (sanitize raw) header_nl \<and>
   sanitize raw =
     (if startsWith (clean raw) header_nl then clean raw
      else header_nl @ strip_header (clean raw)) \<and>
   (\<forall>d ds. clean raw = header @ d # ds \<and> d \<noteq> nl \<longrightarrow>
      sanitize raw = header @ nl # dropWhile is_ws (d # ds)) \<and>
   (\<not> prefix header (clean raw) \<longrightarrow> sanitize raw = header_nl @ clean raw)"
proof (intro conjI allI impI)
  show "sanitize raw = header_nl @ clean raw" if "\<not> prefix header (clean raw)"
  proof -
    from that have "\<not> startsWith (clean raw) header_nl"
      by (auto simp: startsWith_def header_nl_def prefix_def)
    with that show ?thesis
      by (simp add: sanitize_eq_ensure ensure_header_def strip_header_def)
  qed
  show "startsWith (sanitize raw) header_nl"
    by (simp add: startsWith_def sanitize_eq_ensure prefix_header_nl_ensure)
  show eq: "sanitize raw =
     (if startsWith (clean raw) header_nl then clean raw
      else header_nl @ strip_header (clean raw))"
    by (simp add: sanitize_eq_ensure ensure_header_def)
  fix d ds
  assume a: "clean raw = header @ d # ds \<and> d \<noteq> nl"
  then have "\<not> startsWith (clean raw) header_nl"
    by (auto simp: startsWith_def header_nl_def)
  with eq a show "sanitize raw = header @ nl # dropWhile is_ws (d # ds)"
    by (simp add: strip_header_after header_nl_def del: dropWhile.simps)
qed

theorem output_starts_with_header_witness:
  "startsWith (sanitize (js ''flowchart TDA[Start]-->B[End]'')) header_nl \<and>
   sanitize (js ''flowchart TDA[Start]-->B[End]'') = header_nl @ js ''A[Start]-->B[End]''"
proof -
  have c: "clean (js ''flowchart TDA[Start]-->B[End]'') = header @ 65 # js ''[Start]-->B[End]''"
    by code_simp
  have n: "(65 :: cu) \<noteq> nl" by (simp add: nl_def)
  have w: "dropWhile is_ws (65 # js ''[Start]-->B[End]'') = js ''A[Start]-->B[End]''"
    by code_simp
  from output_starts_with_header [of "js ''flowchart TDA[Start]-->B[End]''"] c n
  have s: "startsWith (sanitize (js ''flowchart TDA[Start]-->B[End]'')) header_nl"
    and "sanitize (js ''flowchart TDA[Start]-->B[End]'') =
         header @ nl # dropWhile is_ws (65 # js ''[Start]-->B[End]'')"
    by blast+
  with w have "sanitize (js ''flowchart TDA[Start]-->B[End]'') =
         header @ nl # js ''A[Start]-->B[End]''"
    by (simp only:)
  then have "sanitize (js ''flowchart TDA[Start]-->B[End]'') = header_nl @ js ''A[Start]-->B[End]''"
    by (simp add: header_nl_def)
  with s show ?thesis by (rule conjI)
qed




text \<open>
  Claim C6.  Sanitizing twice gives what sanitizing once gives.  This holds for every text, so
  also for every text that is already sanitized code.
\<close>

theorem sanitizer_idempotent: "sanitize (sanitize raw) = sanitize raw"
  by (rule sanitize_idem)

theorem sanitizer_idempotent_witness:
  "sanitize (header_nl @ js ''A[Start]-->B[End]'') = header_nl @ js ''A[Start]-->B[End]'' \<and>
   sanitize (sanitize (header_nl @ js ''A[Start]-->B[End]'')) = sanitize (header_nl @ js ''A[Start]-->B[End]'')"
proof
  show "sanitize (header_nl @ js ''A[Start]-->B[End]'') = header_nl @ js ''A[Start]-->B[End]''"
    by code_simp
  show "sanitize (sanitize (header_nl @ js ''A[Start]-->B[End]'')) = sanitize (header_nl @ js ''A[Start]-->B[End]'')"
    by (rule sanitizer_idempotent)
qed

text \<open>
  Claim C10.  For a completion text that is empty or all white space, the clean-up leaves the
  empty string, the header step gives the bare header line, the last replacement finds
  nothing to change in it, and the sanitized code is exactly the header line.
\<close>

theorem blank_completion_gives_header:
  assumes "\<forall>c\<in>set raw. is_ws c"
  shows "clean raw = [] \<and> ensure_header (clean raw) = header_nl \<and>
         guard_newline header_nl = header_nl \<and> sanitize raw = header_nl"
proof -
  from assms have "trim raw = []" by (rule trim_all_ws)
  then have c: "clean raw = []" by (rule clean_Nil)
  then show ?thesis
    by (simp add: sanitize_def ensure_header_Nil guard_newline_id)
qed

theorem blank_completion_gives_header_witness:
  "is_ws 0x20 \<and> is_ws nl \<and> is_ws 0x09 \<and> is_ws 0x2003 \<and>
   sanitize [0x20, nl, 0x09, 0x2003] = js ''flowchart TD'' @ [0x0A] \<and>
   sanitize [] = js ''flowchart TD'' @ [0x0A]"
proof -
  have h: "\<forall>c\<in>set [0x20, nl, 0x09, 0x2003 :: cu]. is_ws c"
    by (simp add: is_ws_def nl_def)
  have e: "\<forall>c\<in>set ([] :: jsstring). is_ws c" by simp
  have "header_nl = js ''flowchart TD'' @ [0x0A]" by (simp add: header_nl_def header_def nl_def)
  moreover have "is_ws 0x20" "is_ws nl" "is_ws 0x09" "is_ws 0x2003"
    by (simp_all add: is_ws_def nl_def)
  ultimately show ?thesis
    using blank_completion_gives_header [OF h] blank_completion_gives_header [OF e] by simp
qed

subsection \<open>Generation cycles\<close>

text \<open>
  Claim C3.  A cycle that completes stores exactly one more user message, the prompt,
  directly behind the messages it had.  Started without a diagram, it stores behind that one
  assistant message with the sanitized code and nothing else: two new messages.  A cycle that
  throws stores no new message.  What a cycle started with a diagram stores behind the user
  message is not part of this statement.
\<close>

theorem cycle_appends_by_design:
  assumes "\<not> disabled st"
  shows "length (filter (\<lambda>m. role m = User) (messages (settle (Completed c) (click st)))) =
           length (filter (\<lambda>m. role m = User) (messages st)) + 1 \<and>
         prefix (messages st @ [\<lparr>role = User, content = prompt st\<rparr>])
           (messages (settle (Completed c) (click st))) \<and>
         (mermaidCode st = [] \<longrightarrow>
            messages (settle (Completed c) (click st)) =
              messages st @ [\<lparr>role = User, content = prompt st\<rparr>,
                             \<lparr>role = Assistant, content = sanitize c\<rparr>] \<and>
            length (messages (settle (Completed c) (click st))) = length (messages st) + 2) \<and>
         (throws oc \<longrightarrow> messages (settle oc (click st)) = messages st)"
proof (intro conjI impI)
  have m: "messages (settle (Completed c) (click st)) =
      updatedMessages st @ [\<lparr>role = Assistant, content = sanitize c\<rparr>]"
    using assms by (rule messages_cycle_completed)
  show "length (filter (\<lambda>m. role m = User) (messages (settle (Completed c) (click st)))) =
           length (filter (\<lambda>m. role m = User) (messages st)) + 1"
    unfolding m by (simp add: users_updatedMessages)
  show "prefix (messages st @ [\<lparr>role = User, content = prompt st\<rparr>])
           (messages (settle (Completed c) (click st)))"
    unfolding m by (simp add: updatedMessages_def Let_def)
  show "messages (settle (Completed c) (click st)) =
              messages st @ [\<lparr>role = User, content = prompt st\<rparr>,
                             \<lparr>role = Assistant, content = sanitize c\<rparr>]"
    if "mermaidCode st = []"
    unfolding m using that by (simp add: updatedMessages_def)
  show "length (messages (settle (Completed c) (click st))) = length (messages st) + 2"
    if "mermaidCode st = []"
    unfolding m using that by (simp add: updatedMessages_def)
  show "messages (settle oc (click st)) = messages st" if "throws oc"
    using assms that by (simp add: cycle_failed)
qed

theorem cycle_appends_by_design_witness:
  "\<not> disabled (run id [Type_prompt (js ''a'')]) \<and>
   mermaidCode (run id [Type_prompt (js ''a'')]) = [] \<and>
   messages (settle (Completed (js ''A-->B'')) (click (run id [Type_prompt (js ''a'')]))) =
     [system_message, \<lparr>role = User, content = js ''a''\<rparr>,
      \<lparr>role = Assistant, content = sanitize (js ''A-->B'')\<rparr>] \<and>
   throws (Not_ok (js ''Unauthorized'')) \<and>
   messages (settle (Not_ok (js ''Unauthorized'')) (click (run id [Type_prompt (js ''a'')]))) =
     [system_message]"
proof -
  let ?s = "run id [Type_prompt (js ''a'')]"
  have h: "\<not> disabled ?s" by (rule enabled_typed)
  have c: "mermaidCode ?s = []" by (simp add: run_typed initial_def)
  have m: "messages ?s = [system_message]" by (simp add: run_typed initial_def)
  have p: "prompt ?s = js ''a''" by (simp add: run_typed)
  have t: "throws (Not_ok (js ''Unauthorized''))" by simp
  from cycle_appends_by_design [OF h, of "js ''A-->B''"] c
  have "messages (settle (Completed (js ''A-->B'')) (click ?s)) =
      messages ?s @ [\<lparr>role = User, content = prompt ?s\<rparr>,
                     \<lparr>role = Assistant, content = sanitize (js ''A-->B'')\<rparr>]"
    by blast
  then have a: "messages (settle (Completed (js ''A-->B'')) (click ?s)) =
     [system_message, \<lparr>role = User, content = js ''a''\<rparr>,
      \<lparr>role = Assistant, content = sanitize (js ''A-->B'')\<rparr>]"
    unfolding m p by simp
  from cycle_appends_by_design [OF h, of _ "Not_ok (js ''Unauthorized'')"] t
  have "messages (settle (Not_ok (js ''Unauthorized'')) (click ?s)) = messages ?s"
    by blast
  then have b: "messages (settle (Not_ok (js ''Unauthorized'')) (click ?s)) = [system_message]"
    unfolding m .
  from h c a t b show ?thesis by (intro conjI)
qed

text \<open>
  A second cycle, started with a diagram on screen, stores three new messages, not two, and
  a cycle whose call is answered with an error status stores none.
\<close>

theorem cycle_appends_two_counterexample:
  "\<not> disabled (run id [Type_prompt (js ''a''), Click, Settle (Completed []), Type_prompt (js ''b'')]) \<and>
   length (messages (settle (Completed (js ''A-->B''))
      (click (run id [Type_prompt (js ''a''), Click, Settle (Completed []), Type_prompt (js ''b'')])))) \<noteq>
     length (messages (run id [Type_prompt (js ''a''), Click, Settle (Completed []), Type_prompt (js ''b'')])) + 2 \<and>
   map role (drop
      (length (messages (run id [Type_prompt (js ''a''), Click, Settle (Completed []), Type_prompt (js ''b'')])))
      (messages (settle (Completed (js ''A-->B''))
         (click (run id [Type_prompt (js ''a''), Click, Settle (Completed []), Type_prompt (js ''b'')]))))) =
     [User, Assistant, Assistant] \<and>
   \<not> disabled (run id [Type_prompt (js ''a'')]) \<and>
   messages (settle (Not_ok (js ''Unauthorized'')) (click (run id [Type_prompt (js ''a'')]))) =
     messages (run id [Type_prompt (js ''a'')])"
proof (intro conjI)
  let ?st = "run id [Type_prompt (js ''a''), Click, Settle (Completed []), Type_prompt (js ''b'')]"
  have b: "messages ?st = [system_message, \<lparr>role = User, content = js ''a''\<rparr>,
      \<lparr>role = Assistant, content = header_nl\<rparr>]"
    by (simp add: run_first_cycle)
  have m: "messages (settle (Completed (js ''A-->B'')) (click ?st)) =
     [system_message, \<lparr>role = User, content = js ''a''\<rparr>,
      \<lparr>role = Assistant, content = header_nl\<rparr>,
      \<lparr>role = User, content = js ''b''\<rparr>, current_code_message header_nl,
      \<lparr>role = Assistant, content = sanitize (js ''A-->B'')\<rparr>]"
    unfolding messages_cycle_completed [OF enabled_first_cycle]
    by (simp add: updatedMessages_def run_first_cycle js_nonempty)
  show "\<not> disabled ?st" by (rule enabled_first_cycle)
  show "length (messages (settle (Completed (js ''A-->B'')) (click ?st))) \<noteq> length (messages ?st) + 2"
    unfolding m b by simp
  show "map role (drop (length (messages ?st))
      (messages (settle (Completed (js ''A-->B'')) (click ?st)))) = [User, Assistant, Assistant]"
    unfolding m b by (simp add: current_code_message_def)
  show "\<not> disabled (run id [Type_prompt (js ''a'')])" by (rule enabled_typed)
  show "messages (settle (Not_ok (js ''Unauthorized'')) (click (run id [Type_prompt (js ''a'')]))) =
     messages (run id [Type_prompt (js ''a'')])"
    by (simp add: cycle_failed [OF enabled_typed])
qed

text \<open>
  Claim C4.  When the call of a cycle throws (the transport fails, the status is not a
  success, or the body cannot be read), the messages, the diagram code and the prompt are
  those from before the click, \<^verbatim>\<open>loading\<close> is false again, nothing is pending, and the
  error text is set.
\<close>

theorem failed_call_is_atomic:
  assumes "\<not> disabled st" and "throws oc"
  shows "messages (settle oc (click st)) = messages st \<and>
         mermaidCode (settle oc (click st)) = mermaidCode st \<and>
         prompt (settle oc (click st)) = prompt st \<and>
         \<not> loading (settle oc (click st)) \<and>
         pending (settle oc (click st)) = None \<and>
         error (settle oc (click st)) = error_text oc \<and>
         error (settle oc (click st)) \<noteq> None"
  using assms by (simp add: cycle_failed throws_error_text)

theorem failed_call_is_atomic_witness:
  "\<not> disabled (run id [Type_prompt (js ''a''), Click, Settle (Completed []), Type_prompt (js ''b'')]) \<and>
   throws (Not_ok (js ''Unauthorized'')) \<and> throws (Rejected (Error_object (js ''Failed to fetch''))) \<and>
   messages (run id [Type_prompt (js ''a''), Click, Settle (Completed []), Type_prompt (js ''b''), Click,
       Settle (Not_ok (js ''Unauthorized''))]) =
     messages (run id [Type_prompt (js ''a''), Click, Settle (Completed []), Type_prompt (js ''b'')]) \<and>
   mermaidCode (run id [Type_prompt (js ''a''), Click, Settle (Completed []), Type_prompt (js ''b''), Click,
       Settle (Not_ok (js ''Unauthorized''))]) = header_nl \<and>
   error (run id [Type_prompt (js ''a''), Click, Settle (Completed []), Type_prompt (js ''b''), Click,
       Settle (Not_ok (js ''Unauthorized''))]) = Some (js ''API error: Unauthorized'') \<and>
   error (run id [Type_prompt (js ''a''), Click, Settle (Completed []), Type_prompt (js ''b''), Click,
       Settle (Rejected (Error_object (js ''Failed to fetch'')))]) = Some (js ''Failed to fetch'') \<and>
   \<not> loading (run id [Type_prompt (js ''a''), Click, Settle (Completed []), Type_prompt (js ''b''), Click,
       Settle (Rejected (Error_object (js ''Failed to fetch'')))])"
proof -
  let ?evs = "[Type_prompt (js ''a''), Click, Settle (Completed []), Type_prompt (js ''b'')]"
  let ?st = "run id ?evs"
  have h: "\<not> disabled ?st" by (rule enabled_first_cycle)
  have t1: "throws (Not_ok (js ''Unauthorized''))" by simp
  have t2: "throws (Rejected (Error_object (js ''Failed to fetch'')))" by simp
  have r: "run id (?evs @ [Click, Settle oc]) = settle oc (click ?st)" for oc
    by (rule run_then_cycle)
  have c: "mermaidCode ?st = header_nl" by (simp add: run_first_cycle)
  have e1: "error_text (Not_ok (js ''Unauthorized'')) = Some (js ''API error: Unauthorized'')"
    by (simp add: js_def)
  have e2: "error_text (Rejected (Error_object (js ''Failed to fetch''))) = Some (js ''Failed to fetch'')"
    by simp
  from failed_call_is_atomic [OF h t1] failed_call_is_atomic [OF h t2] h t1 t2
  show ?thesis
    using r [of "Not_ok (js ''Unauthorized'')"] r [of "Rejected (Error_object (js ''Failed to fetch''))"]
    by (simp only: append.simps c e1 e2 simp_thms)
qed

text \<open>
  Claim C5.  A click that is accepted sends the stored messages, then the user message with
  the prompt, and, exactly when there is a diagram, one more assistant message that quotes
  the current diagram code and asks to modify it.
\<close>

theorem request_carries_history_and_diagram:
  assumes "\<not> disabled st"
  shows "(mermaidCode st \<noteq> [] \<longrightarrow>
            pending (click st) = Some (messages st @ [\<lparr>role = User, content = prompt st\<rparr>,
              \<lparr>role = Assistant, content = js ''Current flowchart code:'' @ [nl] @ mermaidCode st @ [nl]
                 @ js ''Please modify this based on the user's request.''\<rparr>])) \<and>
         (mermaidCode st = [] \<longrightarrow>
            pending (click st) = Some (messages st @ [\<lparr>role = User, content = prompt st\<rparr>]))"
  using assms by (simp add: click_enabled updatedMessages_def Let_def current_code_message_def)

theorem request_carries_history_and_diagram_witness:
  "\<not> disabled (run id [Type_prompt (js ''a''), Click, Settle (Completed []), Type_prompt (js ''b'')]) \<and>
   mermaidCode (run id [Type_prompt (js ''a''), Click, Settle (Completed []), Type_prompt (js ''b'')]) \<noteq> [] \<and>
   pending (click (run id [Type_prompt (js ''a''), Click, Settle (Completed []), Type_prompt (js ''b'')])) =
     Some [system_message, \<lparr>role = User, content = js ''a''\<rparr>,
      \<lparr>role = Assistant, content = header_nl\<rparr>,
      \<lparr>role = User, content = js ''b''\<rparr>,
      \<lparr>role = Assistant, content = js ''Current flowchart code:'' @ [nl] @ header_nl @ [nl]
                 @ js ''Please modify this based on the user's request.''\<rparr>] \<and>
   \<not> disabled (run id [Type_prompt (js ''a'')]) \<and>
   mermaidCode (run id [Type_prompt (js ''a'')]) = [] \<and>
   pending (click (run id [Type_prompt (js ''a'')])) =
     Some [system_message, \<lparr>role = User, content = js ''a''\<rparr>]"
proof -
  let ?st = "run id [Type_prompt (js ''a''), Click, Settle (Completed []), Type_prompt (js ''b'')]"
  let ?init = "run id [Type_prompt (js ''a'')]"
  have h: "\<not> disabled ?st" by (rule enabled_first_cycle)
  have m: "messages ?st = [system_message, \<lparr>role = User, content = js ''a''\<rparr>,
      \<lparr>role = Assistant, content = header_nl\<rparr>]" by (simp add: run_first_cycle)
  have p: "prompt ?st = js ''b''" by (simp add: run_first_cycle)
  have c: "mermaidCode ?st = header_nl" by (simp add: run_first_cycle)
  have n: "header_nl \<noteq> []" by (simp add: header_nl_def)
  have h0: "\<not> disabled ?init" by (rule enabled_typed)
  have m0: "messages ?init = [system_message]" by (simp add: run_typed initial_def)
  have p0: "prompt ?init = js ''a''" by (simp add: run_typed)
  have c0: "mermaidCode ?init = []" by (simp add: run_typed initial_def)
  from request_carries_history_and_diagram [OF h] c n
  have "pending (click ?st) = Some (messages ?st @ [\<lparr>role = User, content = prompt ?st\<rparr>,
              \<lparr>role = Assistant, content = js ''Current flowchart code:'' @ [nl] @ mermaidCode ?st @ [nl]
                 @ js ''Please modify this based on the user's request.''\<rparr>])"
    by simp
  then have r: "pending (click ?st) =
     Some [system_message, \<lparr>role = User, content = js ''a''\<rparr>,
      \<lparr>role = Assistant, content = header_nl\<rparr>,
      \<lparr>role = User, content = js ''b''\<rparr>,
      \<lparr>role = Assistant, content = js ''Current flowchart code:'' @ [nl] @ header_nl @ [nl]
                 @ js ''Please modify this based on the user's request.''\<rparr>]"
    unfolding m p c by simp
  from request_carries_history_and_diagram [OF h0] c0
  have "pending (click ?init) = Some (messages ?init @ [\<lparr>role = User, content = prompt ?init\<rparr>])"
    by simp
  then have r0: "pending (click ?init) = Some [system_message, \<lparr>role = User, content = js ''a''\<rparr>]"
    unfolding m0 p0 by simp
  from c n have "mermaidCode ?st \<noteq> []" by simp
  with h r h0 c0 r0 show ?thesis by (intro conjI)
qed

text \<open>
  Claim C8.  Along every sequence of events the stored messages only grow at the end: the
  messages after any further events, and after any one event, start with the messages
  before; and the system message of the initial state is always the first one.
\<close>

theorem conversation_is_append_only:
  "prefix (messages (run fl evs)) (messages (run fl (evs @ rest))) \<and>
   prefix (messages (run fl evs)) (messages (step fl (run fl evs) ev)) \<and>
   prefix [system_message] (messages (run fl evs))"
  using prefix_run_append [of fl evs rest] prefix_step [OF pending_ok_run [of fl evs], where fl = fl and ev = ev]
    system_first_run [of fl evs]
  by simp

theorem conversation_is_append_only_witness:
  "messages (run id [Type_prompt (js ''a''), Click, Settle (Completed []), Type_prompt (js ''b'')]) =
     [system_message, \<lparr>role = User, content = js ''a''\<rparr>,
      \<lparr>role = Assistant, content = header_nl\<rparr>] \<and>
   prefix [system_message, \<lparr>role = User, content = js ''a''\<rparr>, \<lparr>role = Assistant, content = header_nl\<rparr>]
     (messages (run id ([Type_prompt (js ''a''), Click, Settle (Completed []), Type_prompt (js ''b'')]
        @ [Click, Zoom_in, Settle (Completed (js ''A-->B'')), Render_fails])))"
proof -
  let ?evs = "[Type_prompt (js ''a''), Click, Settle (Completed []), Type_prompt (js ''b'')]"
  have m: "messages (run id ?evs) =
     [system_message, \<lparr>role = User, content = js ''a''\<rparr>,
      \<lparr>role = Assistant, content = header_nl\<rparr>]"
    by (simp add: run_first_cycle)
  from conversation_is_append_only
    [of id ?evs "[Click, Zoom_in, Settle (Completed (js ''A-->B'')), Render_fails]"]
  have "prefix (messages (run id ?evs))
     (messages (run id (?evs @ [Click, Zoom_in, Settle (Completed (js ''A-->B'')), Render_fails])))"
    by (rule conjunct1)
  then show ?thesis unfolding m by simp
qed

text \<open>
  Claim C9.  A click while a call is pending (\<^verbatim>\<open>loading\<close>) or with an empty or all-white-space
  prompt changes no part of the state, so no request goes out either; and
  \<^verbatim>\<open>handleGenerate\<close> itself returns at once on such a prompt.
\<close>

theorem rejected_submission_changes_nothing:
  assumes "loading st \<or> (\<forall>c\<in>set (prompt st). is_ws c)"
  shows "click st = st \<and> step fl st Click = st \<and>
         ((\<forall>c\<in>set (prompt st). is_ws c) \<longrightarrow> handleGenerate st = st)"
proof -
  from assms have "disabled st"
    using blank_disabled [of st] by (auto simp: disabled_def)
  then have "click st = st" by (rule click_disabled)
  moreover have "(\<forall>c\<in>set (prompt st). is_ws c) \<longrightarrow> handleGenerate st = st"
    using blank_disabled [of st] by (simp add: handleGenerate_def)
  ultimately show ?thesis by simp
qed

theorem rejected_submission_changes_nothing_witness:
  "loading (run id [Type_prompt (js ''a''), Click]) \<and>
   pending (run id [Type_prompt (js ''a''), Click]) =
     Some [system_message, \<lparr>role = User, content = js ''a''\<rparr>] \<and>
   click (run id [Type_prompt (js ''a''), Click]) = run id [Type_prompt (js ''a''), Click] \<and>
   is_ws 0x20 \<and> is_ws 0x0A \<and> is_ws 0x3000 \<and>
   click (initial\<lparr>prompt := [0x20, 0x0A, 0x3000]\<rparr>) = initial\<lparr>prompt := [0x20, 0x0A, 0x3000]\<rparr> \<and>
   handleGenerate (initial\<lparr>prompt := [0x20, 0x0A, 0x3000]\<rparr>) = initial\<lparr>prompt := [0x20, 0x0A, 0x3000]\<rparr>"
proof -
  let ?busy = "run id [Type_prompt (js ''a''), Click]"
  let ?blank = "initial\<lparr>prompt := [0x20, 0x0A, 0x3000]\<rparr>"
  have r: "?busy = initial\<lparr>prompt := js ''a'', loading := True, error := None,
       pending := Some [system_message, \<lparr>role = User, content = js ''a''\<rparr>]\<rparr>"
    by (simp add: run_def click_def disabled_def handleGenerate_def updatedMessages_def
        initial_def trim_a js_nonempty)
  have l: "loading ?busy" and p: "pending ?busy = Some [system_message, \<lparr>role = User, content = js ''a''\<rparr>]"
    by (simp_all add: r)
  have w: "\<forall>c\<in>set (prompt ?blank). is_ws c" by (simp add: is_ws_def)
  from l have "loading ?busy \<or> (\<forall>c\<in>set (prompt ?busy). is_ws c)" ..
  from rejected_submission_changes_nothing [OF this]
  have b: "click ?busy = ?busy" by (rule conjunct1)
  from w have "loading ?blank \<or> (\<forall>c\<in>set (prompt ?blank). is_ws c)" ..
  from rejected_submission_changes_nothing [OF this] w
  have "click ?blank = ?blank" and "handleGenerate ?blank = ?blank" by blast+
  moreover have "is_ws 0x20" "is_ws 0x0A" "is_ws 0x3000" by (simp_all add: is_ws_def)
  ultimately show ?thesis using l p b by (intro conjI)
qed

subsection \<open>Zoom\<close>

text \<open>
  Claim C7.  After every sequence of events from the initial state, zoom steps among them in
  any number and order, the scale is at least the double of \<^verbatim>\<open>0.1\<close>, hence at least one
  tenth, and at most two, whatever the rounding of the sums.
\<close>

theorem view_scale_in_range:
  "d01 \<le> scale (run fl evs) \<and> scale (run fl evs) \<le> 2 \<and> 1 / 10 \<le> scale (run fl evs)"
  using scale_run [of fl evs] d01_lower by simp

theorem view_scale_in_range_witness:
  "scale (run id (replicate 12 Zoom_in)) = 2 \<and>
   scale (run id (replicate 12 Zoom_out)) = d01 \<and>
   scale (run id (replicate 12 Zoom_in)) \<le> 2 \<and>
   1 / 10 \<le> scale (run id (replicate 12 Zoom_out))"
proof (intro conjI)
  show "scale (run id (replicate 12 Zoom_in)) = 2"
    by (simp add: run_def initial_def handleZoom_def d01_def eval_nat_numeral)
  show "scale (run id (replicate 12 Zoom_out)) = d01"
    by (simp add: run_def initial_def handleZoom_def d01_def eval_nat_numeral)
  from view_scale_in_range [of id "replicate 12 Zoom_in"]
  show "scale (run id (replicate 12 Zoom_in)) \<le> 2" by blast
  from view_scale_in_range [of id "replicate 12 Zoom_out"]
  show "1 / 10 \<le> scale (run id (replicate 12 Zoom_out))" by blast
qed

end
